theory Spec2Isabelle
  imports Complex_Main "HOL-Library.Product_Lexorder" "HOL-Library.Multiset"
begin

section \<open>Data model of \<^verbatim>\<open>DrawingWidget\<close>\<close>

text \<open>
  A \<^verbatim>\<open>QPointF\<close> is a pair of \<^verbatim>\<open>double\<close> coordinates. The coordinates are
  modelled as real numbers and every arithmetic operation of the source as the exact
  operation on them: rounding is not part of the model, and neither are infinities or
  NaN. The comparisons with the literal \<^verbatim>\<open>1e-9\<close> are kept as the source has them.
\<close>

datatype QPointF = QPointF (xc: real) (yc: real)

text \<open>
  The widget's fields. Indices (\<^verbatim>\<open>int\<close> in the source) are natural numbers, and
  the \<^verbatim>\<open>qint64\<close> counters, which are only reset and incremented, are natural
  numbers too.
\<close>

record DrawingWidget =
  points :: "QPointF list"
  hullFast :: "nat list"
  hullSlow :: "nat list"
  iterationsFast :: nat
  iterationsSlow :: nat

datatype MouseButton = LeftButton | RightButton | MiddleButton | OtherButton

section \<open>Geometry helpers\<close>

definition cross :: "QPointF \<Rightarrow> QPointF \<Rightarrow> QPointF \<Rightarrow> real" where
  "cross p a b = (xc a - xc p) * (yc b - yc p) - (yc a - yc p) * (xc b - xc p)"

definition crossVec :: "QPointF \<Rightarrow> QPointF \<Rightarrow> real" where
  "crossVec a b = xc a * yc b - yc a * xc b"

definition dist2 :: "QPointF \<Rightarrow> QPointF \<Rightarrow> real" where
  "dist2 a b = (let dx = xc a - xc b; dy = yc a - yc b in dx * dx + dy * dy)"

text \<open>The literal \<^verbatim>\<open>1e-9\<close> of the source.\<close>

definition eps :: real where
  "eps = 1 / 10 ^ 9"

text \<open>
  \<^verbatim>\<open>std::atan2\<close> is library code. It is modelled by its mathematical definition: the
  angle of the vector \<open>(x, y)\<close> in \<open>(-\<pi>, \<pi>]\<close>, and \<open>0\<close> for the zero vector.
\<close>

definition atan2 :: "real \<Rightarrow> real \<Rightarrow> real" where
  "atan2 y x =
     (if 0 < x then arctan (y / x)
      else if x < 0 then (if 0 \<le> y then arctan (y / x) + pi else arctan (y / x) - pi)
      else if 0 < y then pi / 2
      else if y < 0 then - (pi / 2)
      else 0)"

section \<open>Library containers\<close>

text \<open>
  \<^verbatim>\<open>std::sort\<close> with a comparator. The C++ standard fixes neither the order of
  elements the comparator does not separate nor the number of comparator calls, and
  it leaves the behaviour undefined when the comparator is not a strict weak ordering;
  the model is a stable insertion sort on every input. The comparator returns its
  verdict together with the number it adds to the iteration counter, and the sort
  returns the sum with the sorted list.
\<close>

fun insert_by :: "('a \<Rightarrow> 'a \<Rightarrow> bool \<times> nat) \<Rightarrow> 'a \<Rightarrow> 'a list \<Rightarrow> 'a list \<times> nat" where
  "insert_by cmp v [] = ([v], 0)"
| "insert_by cmp v (y # ys) =
     (if fst (cmp v y) then (v # y # ys, snd (cmp v y))
      else (y # fst (insert_by cmp v ys), snd (cmp v y) + snd (insert_by cmp v ys)))"

definition sort_step :: "('a \<Rightarrow> 'a \<Rightarrow> bool \<times> nat) \<Rightarrow> 'a list \<times> nat \<Rightarrow> 'a \<Rightarrow> 'a list \<times> nat" where
  "sort_step cmp acc v = (fst (insert_by cmp v (fst acc)), snd acc + snd (insert_by cmp v (fst acc)))"

definition std_sort :: "('a \<Rightarrow> 'a \<Rightarrow> bool \<times> nat) \<Rightarrow> 'a list \<Rightarrow> 'a list \<times> nat" where
  "std_sort cmp xs = foldl (sort_step cmp) ([], 0) xs"

text \<open>
  \<^verbatim>\<open>std::set::insert\<close>: the set is kept as its ascending list of distinct elements,
  which is the order its iteration visits.
\<close>

definition set_insert :: "'a::linorder \<Rightarrow> 'a list \<Rightarrow> 'a list" where
  "set_insert v xs = (if v \<in> set xs then xs else insort v xs)"

section \<open>\<^verbatim>\<open>computeGrahamScan\<close>\<close>

text \<open>The pivot loop: one step for each \<open>i\<close> from \<open>1\<close> to \<open>n - 1\<close>.\<close>

definition pivotStep :: "QPointF list \<Rightarrow> nat \<Rightarrow> nat \<Rightarrow> nat" where
  "pivotStep pts pivot i =
     (if yc (pts ! i) < yc (pts ! pivot)
         \<or> (yc (pts ! i) = yc (pts ! pivot) \<and> xc (pts ! i) < xc (pts ! pivot))
      then i else pivot)"

definition findPivot :: "QPointF list \<Rightarrow> nat" where
  "findPivot pts = foldl (pivotStep pts) 0 [1..<length pts]"

text \<open>The vector from the pivot point to a point.\<close>

definition vecFrom :: "QPointF \<Rightarrow> QPointF \<Rightarrow> QPointF" where
  "vecFrom p0 a = QPointF (xc a - xc p0) (yc a - yc p0)"

text \<open>
  The comparator of the angular sort. It increments the counter only when neither
  argument is the pivot.
\<close>

definition angleLess :: "QPointF list \<Rightarrow> nat \<Rightarrow> nat \<Rightarrow> nat \<Rightarrow> bool \<times> nat" where
  "angleLess pts pivot a b =
     (if a = pivot then (True, 0)
      else if b = pivot then (False, 0)
      else (let p0 = pts ! pivot;
                cr = crossVec (vecFrom p0 (pts ! a)) (vecFrom p0 (pts ! b))
            in if \<bar>cr\<bar> < eps then (dist2 p0 (pts ! a) < dist2 p0 (pts ! b), 1)
               else (0 < cr, 1)))"

text \<open>
  One round of the loop that builds \<^verbatim>\<open>filtered\<close>; the state is the vector and the
  counter.
\<close>

definition filterStep :: "QPointF list \<Rightarrow> nat \<Rightarrow> nat list \<times> nat \<Rightarrow> nat \<Rightarrow> nat list \<times> nat" where
  "filterStep pts pivot acc v =
     (let filtered = fst acc; it = snd acc in
      if filtered = [] then ([v], it)
      else if v = pivot then (filtered, it)
      else (let p0 = pts ! pivot;
                A = pts ! last filtered;
                B = pts ! v;
                cr = crossVec (vecFrom p0 A) (vecFrom p0 B)
            in if \<bar>cr\<bar> < eps
               then (if dist2 p0 A < dist2 p0 B then (butlast filtered @ [v], it + 1)
                     else (filtered, it + 1))
               else (filtered @ [v], it + 1)))"

text \<open>The inner \<^verbatim>\<open>while\<close> loop of the stack sweep, for the candidate \<open>s3\<close>.\<close>

function popWhile :: "QPointF list \<Rightarrow> nat \<Rightarrow> nat list \<Rightarrow> nat \<Rightarrow> nat list \<times> nat" where
  "popWhile pts s3 st it =
     (if 2 \<le> length st
      then (if cross (pts ! (st ! (length st - 2))) (pts ! (st ! (length st - 1))) (pts ! s3) \<le> 0
            then popWhile pts s3 (butlast st) (it + 1)
            else (st, it + 1))
      else (st, it))"
  by pat_completeness auto
termination
  by (relation "measure (\<lambda>(pts, s3, st, it). length st)") auto

declare popWhile.simps [simp del]

definition sweepStep :: "QPointF list \<Rightarrow> nat list \<times> nat \<Rightarrow> nat \<Rightarrow> nat list \<times> nat" where
  "sweepStep pts acc s3 =
     (fst (popWhile pts s3 (fst acc) (snd acc)) @ [s3], snd (popWhile pts s3 (fst acc) (snd acc)))"

text \<open>
  The sorted index vector and the vector \<^verbatim>\<open>filtered\<close>, each with the counter after
  it.
\<close>

definition sortedIdx :: "QPointF list \<Rightarrow> nat list \<times> nat" where
  "sortedIdx pts =
     (let n = length pts;
          srt = std_sort (angleLess pts (findPivot pts)) [0..<n]
      in (fst srt, (n - 1) + snd srt))"

definition filteredIdx :: "QPointF list \<Rightarrow> nat list \<times> nat" where
  "filteredIdx pts =
     foldl (filterStep pts (findPivot pts)) ([], snd (sortedIdx pts)) (fst (sortedIdx pts))"

text \<open>
  The whole function, returning \<^verbatim>\<open>outHull\<close> and \<^verbatim>\<open>iterations\<close>. On an empty point
  vector the source reads \<^verbatim>\<open>points[0]\<close> out of range; that is the result \<open>None\<close>.
\<close>

definition computeGrahamScan :: "QPointF list \<Rightarrow> (nat list \<times> nat) option" where
  "computeGrahamScan pts =
     (if pts = [] then None
      else (let filtered = fst (filteredIdx pts); it = snd (filteredIdx pts) in
            if length filtered < 3 then Some (filtered, it)
            else Some (foldl (sweepStep pts) ([filtered ! 0, filtered ! 1], it) (drop 2 filtered))))"

section \<open>\<^verbatim>\<open>computeSlowConvexHull\<close>\<close>

text \<open>
  The innermost loop over \<open>k\<close>, with its \<^verbatim>\<open>continue\<close> and its \<^verbatim>\<open>break\<close>; the state
  is \<open>(pos, neg, iterations)\<close>.
\<close>

fun sideScan :: "QPointF list \<Rightarrow> nat \<Rightarrow> nat \<Rightarrow> nat list \<Rightarrow> bool \<times> bool \<times> nat \<Rightarrow> bool \<times> bool \<times> nat" where
  "sideScan pts i j [] s = s"
| "sideScan pts i j (k # ks) (pos, neg, it) =
     (if k = i \<or> k = j then sideScan pts i j ks (pos, neg, it)
      else (let c = cross (pts ! i) (pts ! j) (pts ! k);
                pos' = (if eps < c then True else pos);
                neg' = (if eps < c then neg else if c < - eps then True else neg)
            in if pos' \<and> neg' then (pos', neg', it + 1)
               else sideScan pts i j ks (pos', neg', it + 1)))"

text \<open>The body of the loop over \<open>j\<close>; the state is the edge set and the counter.\<close>

definition edgeStep :: "QPointF list \<Rightarrow> nat \<Rightarrow> (nat \<times> nat) list \<times> nat \<Rightarrow> nat \<Rightarrow> (nat \<times> nat) list \<times> nat" where
  "edgeStep pts i acc j =
     (case sideScan pts i j [0..<length pts] (False, False, snd acc) of
        (pos, neg, it) \<Rightarrow>
          if pos \<and> neg then (fst acc, it)
          else (set_insert (j, i) (set_insert (i, j) (fst acc)), it))"

definition edgeRow :: "QPointF list \<Rightarrow> (nat \<times> nat) list \<times> nat \<Rightarrow> nat \<Rightarrow> (nat \<times> nat) list \<times> nat" where
  "edgeRow pts acc i = foldl (edgeStep pts i) acc [i + 1..<length pts]"

definition hullEdges :: "QPointF list \<Rightarrow> (nat \<times> nat) list \<times> nat" where
  "hullEdges pts = foldl (edgeRow pts) ([], 0) [0..<length pts]"

definition edgeVerts :: "(nat \<times> nat) list \<Rightarrow> nat list" where
  "edgeVerts edges = foldl (\<lambda>verts e. set_insert (snd e) (set_insert (fst e) verts)) [] edges"

text \<open>\<^verbatim>\<open>orderHullPoints\<close>, returning the reordered index vector.\<close>

definition centroid :: "QPointF list \<Rightarrow> QPointF" where
  "centroid pts =
     QPointF (foldl (\<lambda>cx p. cx + xc p) 0 pts / real (length pts))
             (foldl (\<lambda>cy p. cy + yc p) 0 pts / real (length pts))"

definition angleAt :: "QPointF \<Rightarrow> QPointF \<Rightarrow> real" where
  "angleAt center p = atan2 (yc (vecFrom center p)) (xc (vecFrom center p))"

definition firstLess :: "real \<times> nat \<Rightarrow> real \<times> nat \<Rightarrow> bool \<times> nat" where
  "firstLess a b = (fst a < fst b, 0)"

definition orderHullPoints :: "QPointF list \<Rightarrow> nat list \<Rightarrow> nat list" where
  "orderHullPoints pts indices =
     (if length pts \<le> 1 then indices
      else map snd (fst (std_sort firstLess
             (map (\<lambda>i. (angleAt (centroid pts) (pts ! i), indices ! i)) [0..<length pts]))))"

text \<open>
  The whole function. \<^verbatim>\<open>outHull\<close> is a reference parameter that the two early
  returns leave as it was, so the model takes its previous value.
\<close>

definition computeSlowConvexHull :: "QPointF list \<Rightarrow> nat list \<Rightarrow> nat list \<times> nat" where
  "computeSlowConvexHull pts outHull =
     (if length pts < 3 then (outHull, 0)
      else (let verts = edgeVerts (fst (hullEdges pts)); it = snd (hullEdges pts) in
            if verts = [] then (outHull, it)
            else (orderHullPoints (map (\<lambda>v. pts ! v) verts) verts, it)))"

section \<open>The slots and the event handler\<close>

definition resetResults :: "DrawingWidget \<Rightarrow> DrawingWidget" where
  "resetResults w = w\<lparr>hullFast := [], hullSlow := [], iterationsFast := 0, iterationsSlow := 0\<rparr>"

text \<open>
  \<^verbatim>\<open>runBothAlgorithms\<close>. The repaint request \<^verbatim>\<open>update()\<close> has no effect on the
  fields. The result is \<open>None\<close> if the Graham scan reads out of range.
\<close>

definition runBothAlgorithms :: "DrawingWidget \<Rightarrow> DrawingWidget option" where
  "runBothAlgorithms w =
     (let w1 = resetResults w in
      if length (points w1) < 3 then Some w1
      else (case computeGrahamScan (points w1) of
              None \<Rightarrow> None
            | Some fast \<Rightarrow>
                (let w2 = w1\<lparr>hullFast := fst fast, iterationsFast := snd fast\<rparr>;
                     slow = computeSlowConvexHull (points w2) (hullSlow w2)
                 in Some (w2\<lparr>hullSlow := fst slow, iterationsSlow := snd slow\<rparr>))))"

definition mousePressEvent :: "DrawingWidget \<Rightarrow> MouseButton \<Rightarrow> QPointF \<Rightarrow> DrawingWidget" where
  "mousePressEvent w button p =
     (if button = LeftButton
      then resetResults (w\<lparr>points := points w @ [p]\<rparr>)
      else w)"

definition clearAll :: "DrawingWidget \<Rightarrow> DrawingWidget" where
  "clearAll w = resetResults (w\<lparr>points := []\<rparr>)"

section \<open>Inputs used in the scenarios\<close>

text \<open>The square with one interior point, and a widget holding it with stale results.\<close>

definition squareInput :: "QPointF list" where
  "squareInput = [QPointF 0 0, QPointF 4 0, QPointF 4 4, QPointF 0 4, QPointF 2 2]"

definition staleWidget :: "QPointF list \<Rightarrow> DrawingWidget" where
  "staleWidget pts =
     \<lparr>points = pts, hullFast = [7], hullSlow = [8, 9], iterationsFast = 5, iterationsSlow = 6\<rparr>"

text \<open>A triangle: three points, no three of them on a line.\<close>

definition triangleInput :: "QPointF list" where
  "triangleInput = [QPointF 0 0, QPointF 4 0, QPointF 0 4]"

text \<open>Three points on the diagonal, and three copies of one point.\<close>

definition collinearInput :: "QPointF list" where
  "collinearInput = [QPointF 0 0, QPointF 1 1, QPointF 2 2]"

definition identicalInput :: "QPointF list" where
  "identicalInput = [QPointF 1 1, QPointF 1 1, QPointF 1 1]"

text \<open>
  A triangle (indices 0, 1, 2) with two interior points (indices 3, 4) that lie
  \<^verbatim>\<open>2e-11\<close> apart, one on each side of the segment from the centroid \<open>(0, 0)\<close> to
  the corner \<open>(4, 0)\<close>.
\<close>

definition tiny :: real where
  "tiny = 1 / 10 ^ 11"

definition nearDuplicateInput :: "QPointF list" where
  "nearDuplicateInput =
     [QPointF (- 3) (- 3), QPointF 4 0, QPointF (- 3) 3, QPointF 1 (- tiny), QPointF 1 tiny]"

text \<open>
  A square in which the interior position \<open>(3, 3)\<close> occurs twice (indices 2 and 4),
  with the corner \<open>(4, 4)\<close> between the two occurrences.
\<close>

definition repeatedPointInput :: "QPointF list" where
  "repeatedPointInput =
     [QPointF 0 0, QPointF 4 0, QPointF 3 3, QPointF 4 4, QPointF 3 3, QPointF 0 4]"

section \<open>The driver and the event handler\<close>

lemma resetResults_overwrites:
  "resetResults (w\<lparr>hullFast := hf, hullSlow := hs, iterationsFast := a, iterationsSlow := b\<rparr>)
     = resetResults w"
  by (simp add: resetResults_def)

text \<open>
  Claim C8. A call of \<^verbatim>\<open>runBothAlgorithms\<close> begins by clearing both hulls and both
  counters, so its result does not depend on the values they held before; and with
  fewer than three points the result is exactly the cleared widget: both hulls empty,
  both counters zero, nothing computed by either hull function.
\<close>

theorem runBothAlgorithms_resets_and_short_circuits:
  "runBothAlgorithms (w\<lparr>hullFast := hf, hullSlow := hs, iterationsFast := a, iterationsSlow := b\<rparr>)
     = runBothAlgorithms w
   \<and> (length (points w) < 3 \<longrightarrow>
        runBothAlgorithms w
          = Some (w\<lparr>hullFast := [], hullSlow := [], iterationsFast := 0, iterationsSlow := 0\<rparr>))"
proof
  show "runBothAlgorithms (w\<lparr>hullFast := hf, hullSlow := hs, iterationsFast := a, iterationsSlow := b\<rparr>)
          = runBothAlgorithms w"
    unfolding runBothAlgorithms_def resetResults_overwrites ..
next
  show "length (points w) < 3 \<longrightarrow>
        runBothAlgorithms w
          = Some (w\<lparr>hullFast := [], hullSlow := [], iterationsFast := 0, iterationsSlow := 0\<rparr>)"
    by (simp add: runBothAlgorithms_def resetResults_def)
qed

theorem runBothAlgorithms_short_circuit_witness:
  "length (points (staleWidget [QPointF 0 0, QPointF 1 0])) < 3
   \<and> runBothAlgorithms (staleWidget [QPointF 0 0, QPointF 1 0])
       = Some \<lparr>points = [QPointF 0 0, QPointF 1 0], hullFast = [], hullSlow = [],
               iterationsFast = 0, iterationsSlow = 0\<rparr>"
  using runBothAlgorithms_resets_and_short_circuits [where w = "staleWidget [QPointF 0 0, QPointF 1 0]"]
  by (simp add: staleWidget_def)

text \<open>
  On the two points of this witness the Graham scan itself would return the hull \<open>[1]\<close>,
  so the empty fast hull of the run is not its result.
\<close>

lemma computeGrahamScan_on_two_points:
  "map_option fst (computeGrahamScan [QPointF 0 0, QPointF 1 0]) = Some [1]"
  by code_simp

text \<open>
  Claim C9. A run of \<^verbatim>\<open>runBothAlgorithms\<close> always completes, and the point sequence
  of the widget afterwards is the one it had before: same length, same coordinates at
  every index.
\<close>

theorem runBothAlgorithms_keeps_points:
  "map_option points (runBothAlgorithms w) = Some (points w)"
  by (simp add: runBothAlgorithms_def resetResults_def computeGrahamScan_def Let_def)

text \<open>
  Claim C10. A left-button press appends the pressed position at the end of the point
  sequence, leaving the existing points as they were, and empties both hulls and zeroes
  both counters.
\<close>

theorem mousePressEvent_left_appends_and_clears:
  "points (mousePressEvent w LeftButton p) = points w @ [p]
   \<and> hullFast (mousePressEvent w LeftButton p) = []
   \<and> hullSlow (mousePressEvent w LeftButton p) = []
   \<and> iterationsFast (mousePressEvent w LeftButton p) = 0
   \<and> iterationsSlow (mousePressEvent w LeftButton p) = 0"
  by (simp add: mousePressEvent_def resetResults_def)

section \<open>Evaluating the two hull functions on the scenario inputs\<close>

lemma upt_0_3: "[0..<3] = [0, 1, 2]"
  by code_simp

lemma upt_0_4: "[0..<4] = [0, 1, 2, 3]"
  by code_simp

lemma upt_0_5: "[0..<5] = [0, 1, 2, 3, 4]"
  by code_simp

lemma atan2_diag_values:
  "atan2 (- 2) (- 2) = - (3 * pi / 4)"
  "atan2 (- 2) 2 = - (pi / 4)"
  "atan2 2 2 = pi / 4"
  "atan2 2 (- 2) = 3 * pi / 4"
  "atan2 (- 1) (- 1) = - (3 * pi / 4)"
  "atan2 1 1 = pi / 4"
  "atan2 0 0 = 0"
  "atan2 (- 3) (- 3) = - (3 * pi / 4)"
  "atan2 3 (- 3) = 3 * pi / 4"
  "atan2 0 4 = 0"
  by (simp_all add: atan2_def arctan_one arctan_minus)

lemma order_three_ascending:
  assumes "angleAt (centroid [p0, p1, p2]) p0 < angleAt (centroid [p0, p1, p2]) p1"
    and "angleAt (centroid [p0, p1, p2]) p1 < angleAt (centroid [p0, p1, p2]) p2"
  shows "orderHullPoints [p0, p1, p2] [i0, i1, i2] = [i0, i1, i2]"
  using assms
  by (simp add: orderHullPoints_def upt_0_3 std_sort_def sort_step_def firstLess_def)

subsection \<open>The square with an interior point\<close>

lemma findPivot_square: "findPivot squareInput = 0"
  unfolding squareInput_def by code_simp

lemma filteredIdx_square: "fst (filteredIdx squareInput) = [1, 2, 3]"
  unfolding squareInput_def by code_simp

lemma graham_square: "map_option fst (computeGrahamScan squareInput) = Some [1, 2, 3]"
  unfolding squareInput_def by code_simp

lemma length_square: "length squareInput = 5"
  by (simp add: squareInput_def)

lemma nth_square:
  "squareInput ! 0 = QPointF 0 0" "squareInput ! 1 = QPointF 4 0"
  "squareInput ! 2 = QPointF 4 4" "squareInput ! 3 = QPointF 0 4"
  by (simp_all add: squareInput_def)

lemma edgeVerts_square: "edgeVerts (fst (hullEdges squareInput)) = [0, 1, 2, 3]"
  unfolding squareInput_def by code_simp

lemma centroid_square_corners:
  "centroid [QPointF 0 0, QPointF 4 0, QPointF 4 4, QPointF 0 4] = QPointF 2 2"
  by code_simp

lemma order_square:
  "orderHullPoints [QPointF 0 0, QPointF 4 0, QPointF 4 4, QPointF 0 4] [0, 1, 2, 3] = [0, 1, 2, 3]"
  using pi_gt_zero
  by (simp add: orderHullPoints_def centroid_square_corners upt_0_4 angleAt_def vecFrom_def
      atan2_diag_values std_sort_def sort_step_def firstLess_def)

lemma slow_square: "fst (computeSlowConvexHull squareInput h) = [0, 1, 2, 3]"
  by (simp add: computeSlowConvexHull_def length_square edgeVerts_square nth_square order_square
      Let_def del: One_nat_def)

subsection \<open>The triangle\<close>

lemma graham_triangle: "map_option fst (computeGrahamScan triangleInput) = Some [1, 2]"
  unfolding triangleInput_def by code_simp

lemma length_triangle: "length triangleInput = 3"
  by (simp add: triangleInput_def)

lemma nth_triangle:
  "triangleInput ! 0 = QPointF 0 0" "triangleInput ! 1 = QPointF 4 0"
  "triangleInput ! 2 = QPointF 0 4"
  by (simp_all add: triangleInput_def)

lemma edgeVerts_triangle: "edgeVerts (fst (hullEdges triangleInput)) = [0, 1, 2]"
  unfolding triangleInput_def by code_simp

lemma centroid_triangle:
  "centroid [QPointF 0 0, QPointF 4 0, QPointF 0 4] = QPointF (4 / 3) (4 / 3)"
  by code_simp

lemma angles_triangle:
  "angleAt (QPointF (4 / 3) (4 / 3)) (QPointF 0 0) = - (3 * pi / 4)"
  "angleAt (QPointF (4 / 3) (4 / 3)) (QPointF 4 0) = - arctan (1 / 2)"
  "angleAt (QPointF (4 / 3) (4 / 3)) (QPointF 0 4) = pi - arctan 2"
  by (simp_all add: angleAt_def vecFrom_def atan2_def arctan_one arctan_minus)

lemma order_triangle:
  "orderHullPoints [QPointF 0 0, QPointF 4 0, QPointF 0 4] [0, 1, 2] = [0, 1, 2]"
proof (rule order_three_ascending)
  show "angleAt (centroid [QPointF 0 0, QPointF 4 0, QPointF 0 4]) (QPointF 0 0)
          < angleAt (centroid [QPointF 0 0, QPointF 4 0, QPointF 0 4]) (QPointF 4 0)"
    unfolding centroid_triangle angles_triangle
    using pi_gt_zero arctan_ubound [of "1 / 2"] by linarith
  show "angleAt (centroid [QPointF 0 0, QPointF 4 0, QPointF 0 4]) (QPointF 4 0)
          < angleAt (centroid [QPointF 0 0, QPointF 4 0, QPointF 0 4]) (QPointF 0 4)"
    unfolding centroid_triangle angles_triangle
    using pi_gt_zero arctan_ubound [of 2] arctan_lbound [of "1 / 2"] by linarith
qed

lemma slow_triangle: "fst (computeSlowConvexHull triangleInput h) = [0, 1, 2]"
  by (simp add: computeSlowConvexHull_def length_triangle edgeVerts_triangle nth_triangle
      order_triangle Let_def del: One_nat_def)

subsection \<open>Three collinear points\<close>

lemma graham_collinear: "map_option fst (computeGrahamScan collinearInput) = Some [2]"
  unfolding collinearInput_def by code_simp

lemma length_collinear: "length collinearInput = 3"
  by (simp add: collinearInput_def)

lemma nth_collinear:
  "collinearInput ! 0 = QPointF 0 0" "collinearInput ! 1 = QPointF 1 1"
  "collinearInput ! 2 = QPointF 2 2"
  by (simp_all add: collinearInput_def)

lemma sideScan_collinear:
  "sideScan collinearInput 0 1 [0..<3] (False, False, 0) = (False, False, 1)"
  "sideScan collinearInput 0 2 [0..<3] (False, False, 0) = (False, False, 1)"
  "sideScan collinearInput 1 2 [0..<3] (False, False, 0) = (False, False, 1)"
  unfolding collinearInput_def by code_simp+

lemma hullEdges_collinear:
  "fst (hullEdges collinearInput) = [(0, 1), (0, 2), (1, 0), (1, 2), (2, 0), (2, 1)]"
  unfolding collinearInput_def by code_simp

lemma edgeVerts_collinear: "edgeVerts (fst (hullEdges collinearInput)) = [0, 1, 2]"
  unfolding collinearInput_def by code_simp

lemma centroid_collinear: "centroid collinearInput = QPointF 1 1"
  unfolding collinearInput_def by code_simp

lemma angles_collinear:
  "angleAt (QPointF 1 1) (QPointF 0 0) = - (3 * pi / 4)"
  "angleAt (QPointF 1 1) (QPointF 1 1) = 0"
  "angleAt (QPointF 1 1) (QPointF 2 2) = pi / 4"
  by (simp_all add: angleAt_def vecFrom_def atan2_diag_values)

lemma order_collinear:
  "orderHullPoints [QPointF 0 0, QPointF 1 1, QPointF 2 2] [0, 1, 2] = [0, 1, 2]"
proof (rule order_three_ascending)
  show "angleAt (centroid [QPointF 0 0, QPointF 1 1, QPointF 2 2]) (QPointF 0 0)
          < angleAt (centroid [QPointF 0 0, QPointF 1 1, QPointF 2 2]) (QPointF 1 1)"
    unfolding centroid_collinear [unfolded collinearInput_def] angles_collinear
    using pi_gt_zero by linarith
  show "angleAt (centroid [QPointF 0 0, QPointF 1 1, QPointF 2 2]) (QPointF 1 1)
          < angleAt (centroid [QPointF 0 0, QPointF 1 1, QPointF 2 2]) (QPointF 2 2)"
    unfolding centroid_collinear [unfolded collinearInput_def] angles_collinear
    using pi_gt_zero by linarith
qed

lemma slow_collinear: "fst (computeSlowConvexHull collinearInput h) = [0, 1, 2]"
  by (simp add: computeSlowConvexHull_def length_collinear edgeVerts_collinear nth_collinear
      order_collinear Let_def del: One_nat_def)

subsection \<open>Three copies of one point\<close>

lemma graham_identical: "map_option fst (computeGrahamScan identicalInput) = Some [0]"
  unfolding identicalInput_def by code_simp

lemma length_identical: "length identicalInput = 3"
  by (simp add: identicalInput_def)

lemma nth_identical:
  "identicalInput ! 0 = QPointF 1 1" "identicalInput ! 1 = QPointF 1 1"
  "identicalInput ! 2 = QPointF 1 1"
  by (simp_all add: identicalInput_def)

lemma edgeVerts_identical: "edgeVerts (fst (hullEdges identicalInput)) = [0, 1, 2]"
  unfolding identicalInput_def by code_simp

lemma centroid_identical: "centroid identicalInput = QPointF 1 1"
  unfolding identicalInput_def by code_simp

lemma order_identical:
  "orderHullPoints [QPointF 1 1, QPointF 1 1, QPointF 1 1] [0, 1, 2] = [0, 1, 2]"
  using centroid_identical
  by (simp add: orderHullPoints_def identicalInput_def upt_0_3 angles_collinear
      std_sort_def sort_step_def firstLess_def)

lemma slow_identical: "fst (computeSlowConvexHull identicalInput h) = [0, 1, 2]"
  by (simp add: computeSlowConvexHull_def length_identical edgeVerts_identical nth_identical
      order_identical Let_def del: One_nat_def)

subsection \<open>The triangle with two nearly coincident interior points\<close>

lemma length_nearDuplicate: "length nearDuplicateInput = 5"
  by (simp add: nearDuplicateInput_def)

lemma nth_nearDuplicate:
  "nearDuplicateInput ! 0 = QPointF (- 3) (- 3)" "nearDuplicateInput ! 1 = QPointF 4 0"
  "nearDuplicateInput ! 2 = QPointF (- 3) 3"
  "nearDuplicateInput ! 3 = QPointF 1 (- tiny)"
  "nearDuplicateInput ! 4 = QPointF 1 tiny"
  by (simp_all add: nearDuplicateInput_def)

lemma sideScan_nearDuplicate:
  "sideScan nearDuplicateInput 3 4 [0..<5] (False, False, 0) = (False, False, 3)"
  unfolding nearDuplicateInput_def by code_simp

lemma edgeVerts_nearDuplicate: "edgeVerts (fst (hullEdges nearDuplicateInput)) = [0, 1, 2, 3, 4]"
  unfolding nearDuplicateInput_def by code_simp

lemma centroid_nearDuplicate: "centroid nearDuplicateInput = QPointF 0 0"
  unfolding nearDuplicateInput_def by code_simp

lemma angles_nearDuplicate:
  "angleAt (QPointF 0 0) (QPointF (- 3) (- 3)) = - (3 * pi / 4)"
  "angleAt (QPointF 0 0) (QPointF 4 0) = 0"
  "angleAt (QPointF 0 0) (QPointF (- 3) 3) = 3 * pi / 4"
  "angleAt (QPointF 0 0) (QPointF 1 (- tiny)) = - arctan tiny"
  "angleAt (QPointF 0 0) (QPointF 1 tiny) = arctan tiny"
  by (simp_all add: angleAt_def vecFrom_def atan2_diag_values)
    (simp_all add: atan2_def arctan_minus)

lemma tiny_pos: "0 < tiny"
  by (simp add: tiny_def)

lemma order_nearDuplicate:
  "orderHullPoints
     [QPointF (- 3) (- 3), QPointF 4 0, QPointF (- 3) 3, QPointF 1 (- tiny), QPointF 1 tiny]
     [0, 1, 2, 3, 4]
   = [0, 3, 1, 4, 2]"
proof -
  have pos: "0 < arctan tiny"
    using tiny_pos by simp
  have ub: "arctan tiny < pi / 2"
    by (rule arctan_ubound)
  have chain:
    "- (3 * pi / 4) < - arctan tiny" "- arctan tiny < 0" "0 < arctan tiny"
    "arctan tiny < 3 * pi / 4"
    using pos ub pi_gt_zero by linarith+
  have sorted5: "map snd (fst (std_sort firstLess [(a0, 0), (a1, 1), (a2, 2), (a3, 3), (a4, 4)]))
      = [0 :: nat, 3, 1, 4, 2]"
    if "a0 < a3" "a3 < a1" "a1 < a4" "a4 < a2" for a0 a1 a2 a3 a4 :: real
    using that by (simp add: std_sort_def sort_step_def firstLess_def)
  show ?thesis
    unfolding orderHullPoints_def centroid_nearDuplicate [unfolded nearDuplicateInput_def]
    by (simp add: upt_0_5 angles_nearDuplicate sorted5 [OF chain] del: One_nat_def)
qed

lemma slow_nearDuplicate: "fst (computeSlowConvexHull nearDuplicateInput h) = [0, 3, 1, 4, 2]"
  by (simp add: computeSlowConvexHull_def length_nearDuplicate edgeVerts_nearDuplicate
      nth_nearDuplicate order_nearDuplicate Let_def del: One_nat_def)

lemma cross_nearDuplicate:
  "cross (nearDuplicateInput ! 0) (nearDuplicateInput ! 3) (nearDuplicateInput ! 1) = - 9 + 7 * tiny"
  by (simp add: nearDuplicateInput_def cross_def)

section \<open>The scenarios\<close>

lemma computeGrahamScan_returns: "pts \<noteq> [] \<Longrightarrow> \<exists>r. computeGrahamScan pts = Some r"
  by (simp add: computeGrahamScan_def Let_def)

lemma run_hulls:
  assumes "3 \<le> length (points w)"
  shows "map_option hullFast (runBothAlgorithms w) = map_option fst (computeGrahamScan (points w))"
    and "map_option hullSlow (runBothAlgorithms w) = Some (fst (computeSlowConvexHull (points w) []))"
proof -
  from assms have "points w \<noteq> []"
    by auto
  then obtain r where r: "computeGrahamScan (points w) = Some r"
    using computeGrahamScan_returns by blast
  from assms r
  show "map_option hullFast (runBothAlgorithms w) = map_option fst (computeGrahamScan (points w))"
    by (simp add: runBothAlgorithms_def resetResults_def Let_def)
  from assms r
  show "map_option hullSlow (runBothAlgorithms w) = Some (fst (computeSlowConvexHull (points w) []))"
    by (simp add: runBothAlgorithms_def resetResults_def Let_def)
qed

text \<open>
  Claim C1. A run on the square with one interior point leaves the four corners
  \<open>0, 1, 2, 3\<close> in counter-clockwise order as the slow hull, and index \<open>4\<close> in
  neither hull; but the fast hull is \<open>[1, 2, 3]\<close>: the corner with index \<open>0\<close>, which
  is the pivot, is not in it. The loop that builds \<^verbatim>\<open>filtered\<close> compares the first
  candidate with the pivot itself, finds the cross product \<open>0\<close> and overwrites the
  pivot with the candidate.
\<close>

theorem square_run_drops_pivot_from_fast_hull:
  "map_option hullFast (runBothAlgorithms (staleWidget squareInput)) = Some [1, 2, 3]
   \<and> map_option hullSlow (runBothAlgorithms (staleWidget squareInput)) = Some [0, 1, 2, 3]"
proof -
  have "3 \<le> length (points (staleWidget squareInput))"
    by (simp add: staleWidget_def length_square)
  from run_hulls [OF this] show ?thesis
    by (simp add: staleWidget_def graham_square slow_square)
qed

text \<open>
  Claim C2. On a triangle, three points of which no three are collinear, the fast hull
  has the index set \<open>{1, 2}\<close> and the slow hull the index set \<open>{0, 1, 2}\<close>: the two
  sets differ by the pivot.
\<close>

theorem triangle_hulls_differ:
  "map_option (set \<circ> fst) (computeGrahamScan triangleInput) = Some {1, 2}
   \<and> set (fst (computeSlowConvexHull triangleInput [])) = {0, 1, 2}"
proof
  have "map_option (set \<circ> fst) (computeGrahamScan triangleInput)
          = map_option set (map_option fst (computeGrahamScan triangleInput))"
    by (simp add: option.map_comp)
  then show "map_option (set \<circ> fst) (computeGrahamScan triangleInput) = Some {1, 2}"
    by (simp add: graham_triangle)
  show "set (fst (computeSlowConvexHull triangleInput [])) = {0, 1, 2}"
    by (simp add: slow_triangle)
qed

text \<open>
  Claim C3. On the square with one interior point three candidates remain after the
  collinear-run reduction, so the stack sweep runs; the pivot is index \<open>0\<close>, and the
  first element of the fast hull is index \<open>1\<close>, not the pivot.
\<close>

theorem square_fast_hull_starts_after_pivot:
  "findPivot squareInput = 0
   \<and> length (fst (filteredIdx squareInput)) = 3
   \<and> map_option (hd \<circ> fst) (computeGrahamScan squareInput) = Some 1"
proof -
  have "map_option (hd \<circ> fst) (computeGrahamScan squareInput)
          = map_option hd (map_option fst (computeGrahamScan squareInput))"
    by (simp add: option.map_comp)
  then show ?thesis
    by (simp add: findPivot_square filteredIdx_square graham_square)
qed

text \<open>
  Claim C4. On the triangle with two nearly coincident interior points the edge test
  of the slow hull accepts the pair \<open>(3, 4)\<close> of interior points, since every cross
  product with it is below \<^verbatim>\<open>1e-9\<close> in size; the slow hull after its centroid-angle
  ordering is \<open>[0, 3, 1, 4, 2]\<close>, and its consecutive triple \<open>(0, 3, 1)\<close> has an
  orientation below \<open>-8\<close>: a clockwise turn.
\<close>

theorem nearDuplicate_slow_hull_turns_clockwise:
  "sideScan nearDuplicateInput 3 4 [0..<5] (False, False, 0) = (False, False, 3)
   \<and> fst (computeSlowConvexHull nearDuplicateInput []) = [0, 3, 1, 4, 2]
   \<and> cross (nearDuplicateInput ! 0) (nearDuplicateInput ! 3) (nearDuplicateInput ! 1) < - 8"
  using tiny_pos
  by (simp add: sideScan_nearDuplicate slow_nearDuplicate cross_nearDuplicate tiny_def
      del: One_nat_def)

text \<open>
  Claim C6, at a concrete input. Three copies of one point are an input of three points
  with identical coordinates, and the slow hull of it does not have at most one vertex:
  it holds all three indices.
\<close>

theorem identical_points_slow_hull_has_three:
  "set identicalInput = {QPointF 1 1}
   \<and> 3 \<le> length identicalInput
   \<and> fst (computeSlowConvexHull identicalInput []) = [0, 1, 2]
   \<and> \<not> length (fst (computeSlowConvexHull identicalInput [])) \<le> 1"
  by (simp add: slow_identical) (simp add: identicalInput_def)

text \<open>
  Claim C7. On the three collinear points \<open>(0,0), (1,1), (2,2)\<close> the fast hull, which
  is \<open>[2]\<close>, has at most two indices, each of them \<open>0\<close> or \<open>2\<close>; the edge test of the slow hull ends
  for each of the three pairs with neither a strictly positive nor a strictly negative
  side seen, so every pair is accepted; and the slow hull is all three indices
  \<open>[0, 1, 2]\<close>, in strictly ascending order of their angles about the centroid.
\<close>

theorem collinear_scenario:
  "(\<exists>h. map_option fst (computeGrahamScan collinearInput) = Some h
        \<and> h = [2] \<and> length h \<le> 2 \<and> set h \<subseteq> {0, 2})
   \<and> sideScan collinearInput 0 1 [0..<length collinearInput] (False, False, 0) = (False, False, 1)
   \<and> sideScan collinearInput 0 2 [0..<length collinearInput] (False, False, 0) = (False, False, 1)
   \<and> sideScan collinearInput 1 2 [0..<length collinearInput] (False, False, 0) = (False, False, 1)
   \<and> fst (computeSlowConvexHull collinearInput []) = [0, 1, 2]
   \<and> angleAt (centroid collinearInput) (collinearInput ! 0)
       < angleAt (centroid collinearInput) (collinearInput ! 1)
   \<and> angleAt (centroid collinearInput) (collinearInput ! 1)
       < angleAt (centroid collinearInput) (collinearInput ! 2)"
proof -
  have fast: "\<exists>h. map_option fst (computeGrahamScan collinearInput) = Some h
        \<and> h = [2] \<and> length h \<le> 2 \<and> set h \<subseteq> {0, 2}"
    by (simp add: graham_collinear)
  have angles: "angleAt (centroid collinearInput) (collinearInput ! 0)
       < angleAt (centroid collinearInput) (collinearInput ! 1)"
    "angleAt (centroid collinearInput) (collinearInput ! 1)
       < angleAt (centroid collinearInput) (collinearInput ! 2)"
    unfolding centroid_collinear nth_collinear angles_collinear
    using pi_gt_zero by linarith+
  show ?thesis
    unfolding length_collinear
    by (intro conjI fast angles sideScan_collinear slow_collinear)
qed

section \<open>Hull indices are valid and distinct\<close>

subsection \<open>The sort permutes its input\<close>

lemma mset_insert_by: "mset (fst (insert_by cmp v ys)) = add_mset v (mset ys)"
  by (induction ys) simp_all

lemma mset_sort_fold: "mset (fst (foldl (sort_step cmp) acc xs)) = mset (fst acc) + mset xs"
  by (induction xs arbitrary: acc) (simp_all add: sort_step_def mset_insert_by)

lemma mset_std_sort: "mset (fst (std_sort cmp xs)) = mset xs"
  by (simp add: std_sort_def mset_sort_fold)

lemma mset_sortedIdx: "mset (fst (sortedIdx pts)) = mset [0..<length pts]"
  by (simp add: sortedIdx_def Let_def mset_std_sort)

lemma distinct_sortedIdx: "distinct (fst (sortedIdx pts))"
proof -
  have "distinct [0..<length pts]"
    by simp
  then show ?thesis
    using mset_sortedIdx [of pts] mset_eq_imp_distinct_iff by blast
qed

lemma set_sortedIdx: "set (fst (sortedIdx pts)) = {0..<length pts}"
  using mset_eq_setD [OF mset_sortedIdx [of pts]] by simp

subsection \<open>The collinear-run reduction keeps a duplicate-free selection\<close>

lemma filterStep_selects:
  assumes "distinct (fst acc @ v # xs)"
  shows "distinct (fst (filterStep pts pv acc v) @ xs)
         \<and> set (fst (filterStep pts pv acc v)) \<subseteq> insert v (set (fst acc))"
proof -
  have "distinct (butlast (fst acc))" "set (butlast (fst acc)) \<subseteq> set (fst acc)"
    using assms by (auto simp: distinct_butlast dest: in_set_butlastD)
  with assms show ?thesis
    by (auto simp: filterStep_def Let_def)
qed

lemma filter_fold_selects:
  "distinct (fst acc @ xs) \<Longrightarrow>
   distinct (fst (foldl (filterStep pts pv) acc xs))
   \<and> set (fst (foldl (filterStep pts pv) acc xs)) \<subseteq> set (fst acc) \<union> set xs"
proof (induction xs arbitrary: acc)
  case Nil
  then show ?case by simp
next
  case (Cons v xs)
  from filterStep_selects [OF Cons.prems]
  have d: "distinct (fst (filterStep pts pv acc v) @ xs)"
    and s: "set (fst (filterStep pts pv acc v)) \<subseteq> insert v (set (fst acc))"
    by simp_all
  from Cons.IH [OF d] s show ?case
    by auto
qed

lemma filteredIdx_selects:
  "distinct (fst (filteredIdx pts)) \<and> set (fst (filteredIdx pts)) \<subseteq> {0..<length pts}"
proof -
  have "distinct (fst ([], snd (sortedIdx pts)) @ fst (sortedIdx pts))"
    by (simp add: distinct_sortedIdx)
  from filter_fold_selects [OF this] show ?thesis
    by (simp add: filteredIdx_def set_sortedIdx)
qed

subsection \<open>The stack sweep keeps a duplicate-free selection\<close>

lemma popWhile_prefix: "\<exists>k. fst (popWhile pts s3 st it) = take k st"
proof (induction pts s3 st it rule: popWhile.induct)
  case (1 pts s3 st it)
  show ?case
  proof (cases "2 \<le> length st
      \<and> cross (pts ! (st ! (length st - 2))) (pts ! (st ! (length st - 1))) (pts ! s3) \<le> 0")
    case True
    with "1.IH" obtain k where "fst (popWhile pts s3 (butlast st) (it + 1)) = take k (butlast st)"
      by blast
    then have "fst (popWhile pts s3 st it) = take (min k (length st - 1)) st"
      using True by (subst popWhile.simps) (simp add: butlast_conv_take min.commute)
    then show ?thesis ..
  next
    case False
    then have "fst (popWhile pts s3 st it) = take (length st) st"
      by (subst popWhile.simps) auto
    then show ?thesis ..
  qed
qed

lemma sweepStep_selects:
  assumes "distinct (fst acc @ c # cs)"
  shows "distinct (fst (sweepStep pts acc c) @ cs)
         \<and> set (fst (sweepStep pts acc c)) \<subseteq> insert c (set (fst acc))"
proof -
  obtain k where k: "fst (popWhile pts c (fst acc) (snd acc)) = take k (fst acc)"
    using popWhile_prefix by blast
  have "set (take k (fst acc)) \<subseteq> set (fst acc)"
    by (rule set_take_subset)
  moreover have "distinct (take k (fst acc))"
    using assms by simp
  ultimately show ?thesis
    using assms by (auto simp: sweepStep_def k)
qed

lemma sweep_fold_selects:
  "distinct (fst acc @ cs) \<Longrightarrow>
   distinct (fst (foldl (sweepStep pts) acc cs))
   \<and> set (fst (foldl (sweepStep pts) acc cs)) \<subseteq> set (fst acc) \<union> set cs"
proof (induction cs arbitrary: acc)
  case Nil
  then show ?case by simp
next
  case (Cons c cs)
  from sweepStep_selects [OF Cons.prems]
  have d: "distinct (fst (sweepStep pts acc c) @ cs)"
    and s: "set (fst (sweepStep pts acc c)) \<subseteq> insert c (set (fst acc))"
    by simp_all
  from Cons.IH [OF d] s show ?case
    by auto
qed

lemma first_two_and_rest: "3 \<le> length xs \<Longrightarrow> [xs ! 0, xs ! 1] @ drop 2 xs = xs"
  by (cases xs; cases "tl xs") auto

lemma graham_hull_from_filtered:
  assumes "computeGrahamScan pts = Some r"
  shows "distinct (fst r) \<and> set (fst r) \<subseteq> set (fst (filteredIdx pts))"
proof (cases "length (fst (filteredIdx pts)) < 3")
  case True
  with assms have "fst r = fst (filteredIdx pts)"
    by (auto simp: computeGrahamScan_def Let_def split: if_splits)
  then show ?thesis
    using filteredIdx_selects by simp
next
  case False
  let ?f = "fst (filteredIdx pts)"
  let ?start = "([?f ! 0, ?f ! 1], snd (filteredIdx pts))"
  from False assms have r: "r = foldl (sweepStep pts) ?start (drop 2 ?f)"
    by (auto simp: computeGrahamScan_def Let_def split: if_splits)
  from False have whole: "fst ?start @ drop 2 ?f = ?f"
    using first_two_and_rest [of ?f] by simp
  then have "distinct (fst ?start @ drop 2 ?f)"
    using filteredIdx_selects by simp
  from sweep_fold_selects [OF this]
  have "distinct (fst r)" "set (fst r) \<subseteq> set (fst ?start) \<union> set (drop 2 ?f)"
    unfolding r by simp_all
  moreover have "set (fst ?start) \<union> set (drop 2 ?f) = set ?f"
    using arg_cong [OF whole, of set] by simp
  ultimately show ?thesis
    by simp
qed

lemma graham_indices:
  assumes "computeGrahamScan pts = Some r"
  shows "distinct (fst r) \<and> set (fst r) \<subseteq> {0..<length pts}"
  using graham_hull_from_filtered [OF assms] filteredIdx_selects [of pts] by blast

subsection \<open>The vertices of the accepted edges\<close>

lemma set_set_insert: "set (set_insert v xs) = insert v (set xs)"
  by (simp add: set_insert_def set_insort_key insert_absorb)

lemma distinct_set_insert: "distinct xs \<Longrightarrow> distinct (set_insert v xs)"
  by (simp add: set_insert_def distinct_insort)

lemma edgeStep_in_range:
  "set (fst acc) \<subseteq> {0..<n} \<times> {0..<n} \<Longrightarrow> i < n \<Longrightarrow> j < n \<Longrightarrow>
   set (fst (edgeStep pts i acc j)) \<subseteq> {0..<n} \<times> {0..<n}"
  by (auto simp: edgeStep_def set_set_insert split: prod.splits)

lemma edge_fold_in_range:
  "set (fst acc) \<subseteq> {0..<n} \<times> {0..<n} \<Longrightarrow> i < n \<Longrightarrow> set js \<subseteq> {0..<n} \<Longrightarrow>
   set (fst (foldl (edgeStep pts i) acc js)) \<subseteq> {0..<n} \<times> {0..<n}"
  by (induction js arbitrary: acc) (simp_all add: edgeStep_in_range)

lemma edgeRow_in_range:
  "set (fst acc) \<subseteq> {0..<length pts} \<times> {0..<length pts} \<Longrightarrow> i < length pts \<Longrightarrow>
   set (fst (edgeRow pts acc i)) \<subseteq> {0..<length pts} \<times> {0..<length pts}"
  unfolding edgeRow_def by (rule edge_fold_in_range) auto

lemma row_fold_in_range:
  "set (fst acc) \<subseteq> {0..<length pts} \<times> {0..<length pts} \<Longrightarrow> set is \<subseteq> {0..<length pts} \<Longrightarrow>
   set (fst (foldl (edgeRow pts) acc is)) \<subseteq> {0..<length pts} \<times> {0..<length pts}"
  by (induction "is" arbitrary: acc) (simp_all add: edgeRow_in_range)

lemma hullEdges_in_range: "set (fst (hullEdges pts)) \<subseteq> {0..<length pts} \<times> {0..<length pts}"
  unfolding hullEdges_def by (rule row_fold_in_range) simp_all

lemma verts_fold:
  "distinct vs \<Longrightarrow>
   distinct (foldl (\<lambda>verts e. set_insert (snd e) (set_insert (fst e) verts)) vs es)
   \<and> set (foldl (\<lambda>verts e. set_insert (snd e) (set_insert (fst e) verts)) vs es)
       = set vs \<union> fst ` set es \<union> snd ` set es"
proof (induction es arbitrary: vs)
  case Nil
  then show ?case by simp
next
  case (Cons e es)
  have "distinct (set_insert (snd e) (set_insert (fst e) vs))"
    using Cons.prems by (simp add: distinct_set_insert)
  from Cons.IH [OF this] show ?case
    by (auto simp: set_set_insert)
qed

lemma edgeVerts_indices:
  "distinct (edgeVerts (fst (hullEdges pts)))
   \<and> set (edgeVerts (fst (hullEdges pts))) \<subseteq> {0..<length pts}"
proof -
  have "distinct (edgeVerts (fst (hullEdges pts)))"
    "set (edgeVerts (fst (hullEdges pts)))
       = fst ` set (fst (hullEdges pts)) \<union> snd ` set (fst (hullEdges pts))"
    using verts_fold [of "[]" "fst (hullEdges pts)"] by (simp_all add: edgeVerts_def)
  moreover have "set (fst (hullEdges pts)) \<subseteq> {0..<length pts} \<times> {0..<length pts}"
    by (rule hullEdges_in_range)
  ultimately show ?thesis
    by fastforce
qed

subsection \<open>The centroid-angle ordering permutes the vertices\<close>

lemma mset_orderHullPoints:
  assumes "length ps = length indices"
  shows "mset (orderHullPoints ps indices) = mset indices"
proof (cases "length ps \<le> 1")
  case True
  then show ?thesis
    by (simp add: orderHullPoints_def)
next
  case False
  let ?arr = "map (\<lambda>i. (angleAt (centroid ps) (ps ! i), indices ! i)) [0..<length ps]"
  have "mset (map snd (fst (std_sort firstLess ?arr))) = image_mset snd (mset (fst (std_sort firstLess ?arr)))"
    by simp
  also have "\<dots> = image_mset snd (mset ?arr)"
    by (simp only: mset_std_sort)
  also have "\<dots> = mset (map snd ?arr)"
    by (rule mset_map [symmetric])
  also have "map snd ?arr = map (\<lambda>i. indices ! i) [0..<length indices]"
    using assms by (simp add: comp_def)
  also have "\<dots> = indices"
    by (rule map_nth)
  finally show ?thesis
    using False by (simp add: orderHullPoints_def)
qed

lemma slow_indices:
  "distinct (fst (computeSlowConvexHull pts []))
   \<and> set (fst (computeSlowConvexHull pts [])) \<subseteq> {0..<length pts}"
proof -
  let ?verts = "edgeVerts (fst (hullEdges pts))"
  have m: "mset (orderHullPoints (map (\<lambda>v. pts ! v) ?verts) ?verts) = mset ?verts"
    by (rule mset_orderHullPoints) simp
  have "distinct (orderHullPoints (map (\<lambda>v. pts ! v) ?verts) ?verts)"
    using mset_eq_imp_distinct_iff [OF m] edgeVerts_indices [of pts] by blast
  moreover have "set (orderHullPoints (map (\<lambda>v. pts ! v) ?verts) ?verts) \<subseteq> {0..<length pts}"
    using mset_eq_setD [OF m] edgeVerts_indices [of pts] by simp
  ultimately show ?thesis
    by (simp add: computeSlowConvexHull_def Let_def)
qed

subsection \<open>Both hulls of a run\<close>

text \<open>
  Claim C5. Every run returns, and in the widget it leaves, each index of the fast hull
  and each index of the slow hull is below the number of points (and, being a natural
  number, not negative), and neither hull holds an index twice. This holds for every
  point sequence, also one with fewer than three points, where both hulls are empty.
\<close>

theorem run_hull_indices_valid_and_distinct:
  "\<exists>w'. runBothAlgorithms w = Some w'
     \<and> distinct (hullFast w') \<and> set (hullFast w') \<subseteq> {0..<length (points w)}
     \<and> distinct (hullSlow w') \<and> set (hullSlow w') \<subseteq> {0..<length (points w)}"
proof (cases "length (points w) < 3")
  case True
  then show ?thesis
    by (simp add: runBothAlgorithms_def resetResults_def)
next
  case False
  then have "points w \<noteq> []"
    by auto
  then obtain r where r: "computeGrahamScan (points w) = Some r"
    using computeGrahamScan_returns by blast
  let ?slow = "computeSlowConvexHull (points w) []"
  let ?w' = "w\<lparr>hullFast := fst r, hullSlow := fst ?slow, iterationsFast := snd r,
               iterationsSlow := snd ?slow\<rparr>"
  have "runBothAlgorithms w = Some ?w'"
    using False r by (simp add: runBothAlgorithms_def resetResults_def Let_def)
  moreover have "distinct (hullFast ?w')" "set (hullFast ?w') \<subseteq> {0..<length (points w)}"
    using graham_indices [OF r] by simp_all
  moreover have "distinct (hullSlow ?w')" "set (hullSlow ?w') \<subseteq> {0..<length (points w)}"
    using slow_indices [of "points w"] by simp_all
  ultimately show ?thesis
    by blast
qed

section \<open>The pivot does not survive the collinear-run reduction\<close>

lemma crossVec_zero_left: "crossVec (vecFrom p p) b = 0"
  by (simp add: crossVec_def vecFrom_def)

lemma eps_pos: "0 < eps"
  by (simp add: eps_def)

lemma filterStep_pivot_alone:
  assumes "pv \<in> set (fst acc) \<longrightarrow> fst acc = [pv]"
  shows "pv \<in> set (fst (filterStep pts pv acc v)) \<longrightarrow> fst (filterStep pts pv acc v) = [pv]"
proof (cases "fst acc = [pv]")
  case True
  then show ?thesis
    using eps_pos by (simp add: filterStep_def Let_def crossVec_zero_left)
next
  case False
  with assms have "pv \<notin> set (fst acc)"
    by blast
  then have "pv \<notin> set (butlast (fst acc))"
    by (auto dest: in_set_butlastD)
  with \<open>pv \<notin> set (fst acc)\<close> show ?thesis
    by (auto simp: filterStep_def Let_def)
qed

lemma filter_fold_pivot_alone:
  "pv \<in> set (fst acc) \<longrightarrow> fst acc = [pv] \<Longrightarrow>
   pv \<in> set (fst (foldl (filterStep pts pv) acc xs))
     \<longrightarrow> fst (foldl (filterStep pts pv) acc xs) = [pv]"
proof (induction xs arbitrary: acc)
  case Nil
  then show ?case by simp
next
  case (Cons v xs)
  from Cons.IH [OF filterStep_pivot_alone [OF Cons.prems]] show ?case
    by simp
qed

lemma filteredIdx_pivot_alone:
  "findPivot pts \<in> set (fst (filteredIdx pts)) \<Longrightarrow> fst (filteredIdx pts) = [findPivot pts]"
  using filter_fold_pivot_alone [of "findPivot pts" "([], snd (sortedIdx pts))" pts "fst (sortedIdx pts)"]
  by (simp add: filteredIdx_def)

text \<open>
  So the defect seen in the scenarios is systematic: a fast hull of two or more indices
  never contains the pivot.
\<close>

lemma fast_hull_omits_pivot:
  assumes "computeGrahamScan pts = Some r" and "2 \<le> length (fst r)"
  shows "findPivot pts \<notin> set (fst r)"
proof
  assume "findPivot pts \<in> set (fst r)"
  then have "fst (filteredIdx pts) = [findPivot pts]"
    using graham_hull_from_filtered [OF assms(1)] filteredIdx_pivot_alone by blast
  with assms have "fst r = [findPivot pts]"
    by (auto simp: computeGrahamScan_def Let_def split: if_splits)
  with assms(2) show False
    by simp
qed

section \<open>Inputs whose points all coincide\<close>

lemma cross_same: "cross p p p = 0"
  by (simp add: cross_def)

lemma pivot_fold_stays:
  "\<forall>i\<in>set is. pivotStep pts pv i = pv \<Longrightarrow> foldl (pivotStep pts) pv is = pv"
  by (induction "is") simp_all

lemma findPivot_identical:
  assumes "\<forall>i<length pts. pts ! i = p"
  shows "findPivot pts = 0"
  unfolding findPivot_def
proof (rule pivot_fold_stays, rule ballI)
  fix i assume "i \<in> set [1..<length pts]"
  then have "i < length pts" "0 < length pts"
    by auto
  then have "pts ! i = p" "pts ! 0 = p"
    using assms by blast+
  then show "pivotStep pts 0 i = 0"
    by (simp add: pivotStep_def)
qed

lemma filterStep_identical:
  assumes "\<forall>i<length pts. pts ! i = p" and "pv < length pts" and "v < length pts"
    and "fst acc = [x]" and "x < length pts"
  shows "fst (filterStep pts pv acc v) = [x]"
  using assms eps_pos by (simp add: filterStep_def Let_def crossVec_zero_left)

lemma filter_fold_identical:
  assumes "\<forall>i<length pts. pts ! i = p" and "pv < length pts" and "x < length pts"
  shows "fst acc = [x] \<Longrightarrow> set xs \<subseteq> {0..<length pts} \<Longrightarrow>
         fst (foldl (filterStep pts pv) acc xs) = [x]"
proof (induction xs arbitrary: acc)
  case Nil
  then show ?case by simp
next
  case (Cons v xs)
  then have "fst (filterStep pts pv acc v) = [x]"
    using filterStep_identical [OF assms(1,2) _ _ assms(3)] by simp
  with Cons show ?case
    by simp
qed

lemma sort_fold_keeps_head:
  "fst acc = y # ys \<Longrightarrow> \<forall>v\<in>set xs. \<not> fst (cmp v y) \<Longrightarrow>
   \<exists>zs. fst (foldl (sort_step cmp) acc xs) = y # zs"
proof (induction xs arbitrary: acc ys)
  case Nil
  then show ?case by simp
next
  case (Cons v xs)
  then have "fst (sort_step cmp acc v) = y # fst (insert_by cmp v ys)"
    by (simp add: sort_step_def)
  from Cons.IH [OF this] Cons.prems(2) show ?case
    by simp
qed

lemma sortedIdx_identical_head:
  assumes "\<forall>i<length pts. pts ! i = p" and "pts \<noteq> []"
  shows "\<exists>zs. fst (sortedIdx pts) = 0 # zs"
proof -
  have pv: "findPivot pts = 0"
    by (rule findPivot_identical [OF assms(1)])
  have upt: "[0..<length pts] = 0 # [1..<length pts]"
    using assms(2) by (simp add: upt_rec)
  have later: "\<forall>v\<in>set [1..<length pts]. \<not> fst (angleLess pts 0 v 0)"
    by (auto simp: angleLess_def)
  have first: "fst (sort_step (angleLess pts 0) ([], 0) 0) = [0]"
    by (simp add: sort_step_def)
  from sort_fold_keeps_head [where cmp = "angleLess pts 0", OF first later]
  show ?thesis
    by (simp add: sortedIdx_def Let_def pv std_sort_def upt)
qed

lemma fast_hull_identical_is_pivot:
  assumes "\<forall>i<length pts. pts ! i = p" and "pts \<noteq> []"
  shows "map_option fst (computeGrahamScan pts) = Some [0]"
proof -
  have pv: "findPivot pts < length pts"
    using assms(2) by (simp add: findPivot_identical [OF assms(1)])
  obtain zs where srt: "fst (sortedIdx pts) = 0 # zs"
    using sortedIdx_identical_head [OF assms] by blast
  then have range: "0 < length pts" "set zs \<subseteq> {0..<length pts}"
    using set_sortedIdx [of pts] by auto
  have "fst (filteredIdx pts) = [0]"
    unfolding filteredIdx_def srt
    using filter_fold_identical [OF assms(1) pv range(1) _ range(2)]
    by (simp add: filterStep_def)
  then show ?thesis
    using assms(2) by (simp add: computeGrahamScan_def Let_def)
qed

lemma sideScan_identical:
  assumes "\<forall>i<length pts. pts ! i = p" and "i < length pts" and "j < length pts"
  shows "set ks \<subseteq> {0..<length pts} \<Longrightarrow>
         \<exists>it'. sideScan pts i j ks (False, False, it) = (False, False, it')"
proof (induction ks arbitrary: it)
  case Nil
  then show ?case by simp
next
  case (Cons k ks)
  then have "pts ! k = p" "pts ! i = p" "pts ! j = p"
    using assms by auto
  with Cons eps_pos show ?case
    by (simp add: cross_same Let_def)
qed

lemma edgeStep_identical:
  assumes "\<forall>i<length pts. pts ! i = p" and "i < length pts" and "j < length pts"
  shows "fst (edgeStep pts i acc j) = set_insert (j, i) (set_insert (i, j) (fst acc))"
proof -
  obtain it' where "sideScan pts i j [0..<length pts] (False, False, snd acc) = (False, False, it')"
    using sideScan_identical [OF assms, of "[0..<length pts]"] by auto
  then show ?thesis
    by (simp add: edgeStep_def)
qed

lemma edge_fold_identical:
  assumes "\<forall>i<length pts. pts ! i = p" and "i < length pts"
  shows "set js \<subseteq> {0..<length pts} \<Longrightarrow>
         set (fst (foldl (edgeStep pts i) acc js)) \<supseteq> set (fst acc) \<union> (\<lambda>j. (i, j)) ` set js"
proof (induction js arbitrary: acc)
  case Nil
  then show ?case by simp
next
  case (Cons j js)
  then have "fst (edgeStep pts i acc j) = set_insert (j, i) (set_insert (i, j) (fst acc))"
    using edgeStep_identical [OF assms] by simp
  then have "set (fst acc) \<union> {(i, j)} \<subseteq> set (fst (edgeStep pts i acc j))"
    by (auto simp: set_set_insert)
  moreover have "set (fst (edgeStep pts i acc j)) \<union> (\<lambda>j. (i, j)) ` set js
      \<subseteq> set (fst (foldl (edgeStep pts i) (edgeStep pts i acc j) js))"
    using Cons by simp
  ultimately show ?case
    by auto
qed

lemma row_fold_identical:
  assumes "\<forall>i<length pts. pts ! i = p"
  shows "set is \<subseteq> {0..<length pts} \<Longrightarrow>
         set (fst (foldl (edgeRow pts) acc is))
           \<supseteq> set (fst acc) \<union> {(i, j). i \<in> set is \<and> i < j \<and> j < length pts}"
proof (induction "is" arbitrary: acc)
  case Nil
  then show ?case by simp
next
  case (Cons i "is")
  then have i: "i < length pts"
    by simp
  have "set (fst acc) \<union> (\<lambda>j. (i, j)) ` set [i + 1..<length pts] \<subseteq> set (fst (edgeRow pts acc i))"
    unfolding edgeRow_def by (rule edge_fold_identical [OF assms i]) auto
  then have "set (fst acc) \<union> {(i', j). i' = i \<and> i < j \<and> j < length pts}
      \<subseteq> set (fst (edgeRow pts acc i))"
    by (auto simp: image_subset_iff)
  moreover have "set (fst (edgeRow pts acc i)) \<union> {(i, j). i \<in> set is \<and> i < j \<and> j < length pts}
      \<subseteq> set (fst (foldl (edgeRow pts) (edgeRow pts acc i) is))"
    using Cons by simp
  ultimately show ?case
    by auto
qed

lemma hullEdges_identical:
  assumes "\<forall>i<length pts. pts ! i = p" and "i < j" and "j < length pts"
  shows "(i, j) \<in> set (fst (hullEdges pts))"
  using row_fold_identical [OF assms(1), of "[0..<length pts]" "([], 0)"] assms(2,3)
  by (auto simp: hullEdges_def)

lemma edgeVerts_identical_all:
  assumes "\<forall>i<length pts. pts ! i = p" and "2 \<le> length pts"
  shows "set (edgeVerts (fst (hullEdges pts))) = {0..<length pts}"
proof
  show "set (edgeVerts (fst (hullEdges pts))) \<subseteq> {0..<length pts}"
    using edgeVerts_indices by blast
  have verts: "set (edgeVerts (fst (hullEdges pts)))
       = fst ` set (fst (hullEdges pts)) \<union> snd ` set (fst (hullEdges pts))"
    using verts_fold [of "[]" "fst (hullEdges pts)"] by (simp add: edgeVerts_def)
  show "{0..<length pts} \<subseteq> set (edgeVerts (fst (hullEdges pts)))"
  proof
    fix k assume "k \<in> {0..<length pts}"
    then have k: "k < length pts"
      by simp
    show "k \<in> set (edgeVerts (fst (hullEdges pts)))"
    proof (cases "k = 0")
      case True
      with assms have "(k, 1) \<in> set (fst (hullEdges pts))"
        by (intro hullEdges_identical [OF assms(1)]) auto
      then show ?thesis
        unfolding verts by force
    next
      case False
      with k have "(0, k) \<in> set (fst (hullEdges pts))"
        by (intro hullEdges_identical [OF assms(1)]) auto
      then show ?thesis
        unfolding verts by force
    qed
  qed
qed

lemma slow_hull_identical:
  assumes "\<forall>i<length pts. pts ! i = p" and "3 \<le> length pts"
  shows "set (fst (computeSlowConvexHull pts h)) = {0..<length pts}"
    and "length (fst (computeSlowConvexHull pts h)) = length pts"
proof -
  let ?verts = "edgeVerts (fst (hullEdges pts))"
  have vs: "set ?verts = {0..<length pts}"
    using edgeVerts_identical_all [OF assms(1)] assms(2) by simp
  then have ne: "?verts \<noteq> []"
    using assms(2) by auto
  have "distinct ?verts"
    using edgeVerts_indices by blast
  then have len: "length ?verts = length pts"
    using vs distinct_card [of ?verts] by simp
  have m: "mset (orderHullPoints (map (\<lambda>v. pts ! v) ?verts) ?verts) = mset ?verts"
    by (rule mset_orderHullPoints) simp
  have res: "fst (computeSlowConvexHull pts h) = orderHullPoints (map (\<lambda>v. pts ! v) ?verts) ?verts"
    using assms(2) ne by (simp add: computeSlowConvexHull_def Let_def)
  show "set (fst (computeSlowConvexHull pts h)) = {0..<length pts}"
    unfolding res using mset_eq_setD [OF m] vs by simp
  show "length (fst (computeSlowConvexHull pts h)) = length pts"
    unfolding res using mset_eq_length [OF m] len by simp
qed

text \<open>
  Claim C6, amended. For every input of three or more points that all have the same
  coordinates, the fast hull is the single index \<open>0\<close>, and the slow hull holds every
  index of the input: as many vertices as there are points.
\<close>

theorem identical_points_fast_one_slow_all:
  assumes "set pts = {p}" and "3 \<le> length pts"
  shows "map_option fst (computeGrahamScan pts) = Some [0]
         \<and> set (fst (computeSlowConvexHull pts [])) = {0..<length pts}
         \<and> length (fst (computeSlowConvexHull pts [])) = length pts"
proof -
  have same: "\<forall>i<length pts. pts ! i = p"
    using assms(1) nth_mem by blast
  have "pts \<noteq> []"
    using assms(2) by auto
  with same show ?thesis
    using fast_hull_identical_is_pivot slow_hull_identical [OF same assms(2)] by blast
qed

theorem identical_points_fast_one_slow_all_witness:
  "set identicalInput = {QPointF 1 1}
   \<and> 3 \<le> length identicalInput
   \<and> map_option fst (computeGrahamScan identicalInput) = Some [0]
   \<and> set (fst (computeSlowConvexHull identicalInput [])) = {0..<3}
   \<and> length (fst (computeSlowConvexHull identicalInput [])) = 3"
proof -
  have h: "set identicalInput = {QPointF 1 1}" "3 \<le> length identicalInput"
    by (simp_all add: identicalInput_def)
  from identical_points_fast_one_slow_all [OF h] h show ?thesis
    by (simp add: length_identical)
qed

section \<open>The square with a repeated interior point\<close>

lemma upt_0_6: "[0..<6] = [0, 1, 2, 3, 4, 5]"
  by code_simp

lemma length_repeatedPoint: "length repeatedPointInput = 6"
  by (simp add: repeatedPointInput_def)

lemma nth_repeatedPoint:
  "repeatedPointInput ! 0 = QPointF 0 0" "repeatedPointInput ! 1 = QPointF 4 0"
  "repeatedPointInput ! 2 = QPointF 3 3" "repeatedPointInput ! 3 = QPointF 4 4"
  "repeatedPointInput ! 4 = QPointF 3 3" "repeatedPointInput ! 5 = QPointF 0 4"
  by (simp_all add: repeatedPointInput_def)

lemma edgeVerts_repeatedPoint:
  "edgeVerts (fst (hullEdges repeatedPointInput)) = [0, 1, 2, 3, 4, 5]"
  unfolding repeatedPointInput_def by code_simp

lemma centroid_repeatedPoint: "centroid repeatedPointInput = QPointF (7 / 3) (7 / 3)"
  unfolding repeatedPointInput_def by code_simp

lemma angles_repeatedPoint:
  "angleAt (QPointF (7 / 3) (7 / 3)) (QPointF 0 0) = - (3 * pi / 4)"
  "angleAt (QPointF (7 / 3) (7 / 3)) (QPointF 4 0) = - arctan (7 / 5)"
  "angleAt (QPointF (7 / 3) (7 / 3)) (QPointF 3 3) = pi / 4"
  "angleAt (QPointF (7 / 3) (7 / 3)) (QPointF 4 4) = pi / 4"
  "angleAt (QPointF (7 / 3) (7 / 3)) (QPointF 0 4) = pi - arctan (5 / 7)"
  by (simp_all add: angleAt_def vecFrom_def atan2_def arctan_one arctan_minus)

lemma order_repeatedPoint:
  "orderHullPoints
     [QPointF 0 0, QPointF 4 0, QPointF 3 3, QPointF 4 4, QPointF 3 3, QPointF 0 4]
     [0, 1, 2, 3, 4, 5]
   = [0, 1, 2, 3, 4, 5]"
proof -
  have pos: "0 < arctan (7 / 5 :: real)"
    by simp
  have chain:
    "- (3 * pi / 4) < - arctan (7 / 5)" "- arctan (7 / 5) < pi / 4"
    "pi / 4 < pi - arctan (5 / 7)"
    using pos arctan_ubound [of "7 / 5"] arctan_ubound [of "5 / 7"] pi_gt_zero by linarith+
  have sorted6: "map snd (fst (std_sort firstLess
        [(a0, 0), (a1, 1), (a2, 2), (a2, 3), (a2, 4), (a5, 5)])) = [0 :: nat, 1, 2, 3, 4, 5]"
    if "a0 < a1" "a1 < a2" "a2 < a5" for a0 a1 a2 a5 :: real
    using that by (simp add: std_sort_def sort_step_def firstLess_def)
  show ?thesis
    unfolding orderHullPoints_def centroid_repeatedPoint [unfolded repeatedPointInput_def]
    by (simp add: upt_0_6 angles_repeatedPoint sorted6 [OF chain] del: One_nat_def)
qed

lemma slow_repeatedPoint: "fst (computeSlowConvexHull repeatedPointInput h) = [0, 1, 2, 3, 4, 5]"
  by (simp add: computeSlowConvexHull_def length_repeatedPoint edgeVerts_repeatedPoint
      nth_repeatedPoint order_repeatedPoint Let_def del: One_nat_def)

text \<open>
  The same effect on pixel coordinates. The two copies of \<open>(3, 3)\<close> form a pair that
  passes the edge test, so the interior point becomes a vertex. From the centroid it is
  seen at the same angle as the corner \<open>(4, 4)\<close>; the order of such ties is left open
  by \<^verbatim>\<open>std::sort\<close>, and with the stable order of the model the corner comes between
  the two copies, with a clockwise turn at index \<open>2\<close>.
\<close>

lemma repeatedPoint_slow_hull_turns_clockwise:
  "fst (computeSlowConvexHull repeatedPointInput []) = [0, 1, 2, 3, 4, 5]
   \<and> cross (repeatedPointInput ! 1) (repeatedPointInput ! 2) (repeatedPointInput ! 3) = - 4"
  by (simp add: slow_repeatedPoint) (simp add: repeatedPointInput_def cross_def)

end
